theory Spec2Isabelle
  imports Main "HOL-Library.Word"
begin

section \<open>Data model\<close>

text \<open>
  The atom store is an external collaborator. Handles are compared by content everywhere
  in \<^verbatim>\<open>SimpleCallback.cc\<close> (\<^verbatim>\<open>*con == *to_con\<close>, \<^verbatim>\<open>*tosect != *fm_sect\<close>, and the
  ordering of the maps keyed by \<^verbatim>\<open>Handle\<close>), so an atom is modelled by its content and
  \<^verbatim>\<open>Handle::UNDEFINED\<close> by \<open>None\<close>. The handles passed to \<open>select\<close> (the from-section,
  the to-connector, the open sections of the frame) are sections and connectors, not
  the null handle: the source dereferences them without a test.

  A section is a point (outgoing atom 0) and its connector sequence (outgoing atom 1).
  The connector type is left open. A point is either a point of the dictionary or the
  point of a unique copy, which carries the serial number that makes it unique.
\<close>

datatype point = Point string | Instance string nat

fun point_name :: "point \<Rightarrow> string" where
  "point_name (Point n) = n"
| "point_name (Instance n k) = n"

record 'c Section =
  sect_point :: point
  conseq :: "'c list"

text \<open>
  \<^verbatim>\<open>Frame\<close> (\<^verbatim>\<open>Frame.h\<close>) is opaque to the policy but for \<^verbatim>\<open>_open_sections\<close>, the set
  of handles \<^verbatim>\<open>select_from_open\<close> iterates over: the list is that iteration order.
\<close>

record 'c Frame =
  open_sections :: "'c Section list"

text \<open>
  \<^verbatim>\<open>HandleUCounter\<close> is a map from handles to \<^verbatim>\<open>unsigned\<close>, \<^verbatim>\<open>HandleSeqMap\<close> a map from
  handles to handle sequences.
\<close>

type_synonym 'c HandleUCounter = "'c \<rightharpoonup> 32 word"
type_synonym 'c HandleSeqMap = "'c \<rightharpoonup> 'c Section list"

record 'c OpenSelections =
  opensect :: "'c HandleSeqMap"
  openit :: "'c HandleUCounter"

text \<open>
  The members of \<^verbatim>\<open>SimpleCallback\<close>. \<open>dict\<close> stands for \<^verbatim>\<open>_dict.sections\<close>, the ordered
  sections of the lexis for a connector (\<^verbatim>\<open>Dictionary.h\<close> is not part of the sources at
  hand, so the table is a parameter of the state). \<open>allow_self_connections\<close> is the
  public member inherited from \<^verbatim>\<open>GenerateCallback\<close>. \<open>point_cnt\<close> is the number of
  unique points \<open>create_unique_section\<close> has handed out.
\<close>

record 'c SimpleCallback =
  dict :: "'c \<Rightarrow> 'c Section list"
  allow_self_connections :: bool
  lexlit :: "'c HandleUCounter"
  lexlit_stack :: "'c HandleUCounter list"
  opensel :: "'c OpenSelections"
  opensel_stack :: "'c OpenSelections list"
  point_cnt :: nat

text \<open>
  What C++ leaves undefined and the source does not guard is a value of its own:
  reading a vector past its end, and \<^verbatim>\<open>top()\<close> of an empty \<^verbatim>\<open>std::stack\<close>.
\<close>

datatype undefined_behaviour = IndexPastEnd | TopOfEmptyStack

type_synonym ('c, 'a) outcome = "undefined_behaviour + ('a \<times> 'c SimpleCallback)"

definition at :: "'a list \<Rightarrow> nat \<Rightarrow> undefined_behaviour + 'a" where
  "at xs i = (if i < length xs then Inr (xs ! i) else Inl IndexPastEnd)"

text \<open>\<^verbatim>\<open>Counter::get(key, dflt)\<close>: the value stored for the key, or the default.\<close>

definition get :: "'c HandleUCounter \<Rightarrow> 'c \<Rightarrow> 32 word \<Rightarrow> 32 word" where
  "get m k dflt = (case m k of None \<Rightarrow> dflt | Some v \<Rightarrow> v)"

text \<open>
  \<^verbatim>\<open>m[key] ++\<close>: \<^verbatim>\<open>operator[]\<close> inserts 0 for a missing key, the increment wraps at 32
  bits.
\<close>

definition incr :: "'c HandleUCounter \<Rightarrow> 'c \<Rightarrow> 'c HandleUCounter" where
  "incr m k = m(k \<mapsto> get m k 0 + 1)"

text \<open>The constructor: every map and stack empty, the tunable at its default.\<close>

definition SimpleCallback_init :: "('c \<Rightarrow> 'c Section list) \<Rightarrow> 'c SimpleCallback" where
  "SimpleCallback_init d =
     \<lparr>dict = d, allow_self_connections = False,
      lexlit = Map.empty, lexlit_stack = [],
      opensel = \<lparr>opensect = Map.empty, openit = Map.empty\<rparr>, opensel_stack = [],
      point_cnt = 0\<rparr>"

section \<open>Selection from the lexis\<close>

text \<open>
  Modelled from the spec: \<^verbatim>\<open>create_unique_section\<close> belongs to \<^verbatim>\<open>LinkStyle\<close>, which is
  not among the sources at hand. The spec has it create "a fresh section instance (a
  unique copy, so the same dictionary entry may be attached more than once in the
  assembly)": the copy keeps the connectors and gets a point no earlier section has.
\<close>

definition create_unique_section ::
  "'c SimpleCallback \<Rightarrow> 'c Section \<Rightarrow> 'c Section \<times> 'c SimpleCallback" where
  "create_unique_section cb sect =
     (sect\<lparr>sect_point := Instance (point_name (sect_point sect)) (point_cnt cb)\<rparr>,
      cb\<lparr>point_cnt := Suc (point_cnt cb)\<rparr>)"

definition select_from_lexis ::
  "'c SimpleCallback \<Rightarrow> 'c Frame \<Rightarrow> 'c Section \<Rightarrow> nat \<Rightarrow> 'c \<Rightarrow> ('c, 'c Section option) outcome"
where
  "select_from_lexis cb frame fm_sect offset to_con =
     (let to_sects = dict cb to_con;
          curit = get (lexlit cb) to_con 0
      in
        if 0 = curit then
          (if 0 = length to_sects then Inr (None, cb)
           else
             (case at to_sects 0 of
                Inl ub \<Rightarrow> Inl ub
              | Inr sect \<Rightarrow>
                  (case create_unique_section (cb\<lparr>lexlit := (lexlit cb)(to_con \<mapsto> 1)\<rparr>) sect of
                     (usect, cb') \<Rightarrow> Inr (Some usect, cb'))))
        else if length to_sects \<le> unat curit then
          Inr (None, cb\<lparr>lexlit := (lexlit cb)(to_con := None)\<rparr>)
        else
          (case at to_sects (unat curit) of
             Inl ub \<Rightarrow> Inl ub
           | Inr sect \<Rightarrow>
               (case create_unique_section (cb\<lparr>lexlit := incr (lexlit cb) to_con\<rparr>) sect of
                  (usect, cb') \<Rightarrow> Inr (Some usect, cb'))))"

section \<open>Selection from the open sections\<close>

text \<open>
  The loop of \<^verbatim>\<open>check_self\<close> that steps over the sections equal to \<^verbatim>\<open>fm_sect\<close>. There
  \<^verbatim>\<open>fit\<close> is a \<^verbatim>\<open>size_t\<close> that stays below the length of the vector, hence a \<open>nat\<close>;
  the store into the \<^verbatim>\<open>unsigned\<close> counter truncates it to 32 bits.
\<close>

function check_self_loop ::
  "'c SimpleCallback \<Rightarrow> 'c Section list \<Rightarrow> 'c Section \<Rightarrow> 'c \<Rightarrow> nat \<Rightarrow> ('c, 'c Section option) outcome"
where
  "check_self_loop cb to_sects fm_sect to_con fit =
     (case at to_sects fit of
        Inl ub \<Rightarrow> Inl ub
      | Inr tosect \<Rightarrow>
          if tosect \<noteq> fm_sect then Inr (Some tosect, cb)
          else
            (let fit' = fit + 1;
                 cb' = cb\<lparr>opensel := (opensel cb)
                          \<lparr>openit := (openit (opensel cb))(to_con \<mapsto> of_nat fit')\<rparr>\<rparr>
             in
               if length to_sects \<le> fit' then Inr (None, cb')
               else check_self_loop cb' to_sects fm_sect to_con fit'))"
  by pat_completeness auto
termination
  by (relation "measure (\<lambda>(cb, to_sects, fm_sect, to_con, fit). length to_sects - fit)") auto

declare check_self_loop.simps [simp del]

definition check_self ::
  "'c SimpleCallback \<Rightarrow> 'c Section list \<Rightarrow> 'c Section \<Rightarrow> 'c \<Rightarrow> nat \<Rightarrow> ('c, 'c Section option) outcome"
where
  "check_self cb to_sects fm_sect to_con fit =
     (if length to_sects \<le> fit then Inr (None, cb)
      else
        (let cb1 = cb\<lparr>opensel := (opensel cb)\<lparr>openit := incr (openit (opensel cb)) to_con\<rparr>\<rparr>
         in
           if allow_self_connections cb1 then
             (case at to_sects fit of
                Inl ub \<Rightarrow> Inl ub
              | Inr tosect \<Rightarrow> Inr (Some tosect, cb1))
           else check_self_loop cb1 to_sects fm_sect to_con fit))"

text \<open>
  The candidate list \<^verbatim>\<open>select_from_open\<close> builds: an open section is pushed once for
  every connector of its sequence that equals \<^verbatim>\<open>to_con\<close>.
\<close>

definition open_candidates :: "'c Frame \<Rightarrow> 'c \<Rightarrow> 'c Section list" where
  "open_candidates frame to_con =
     [open_sect. open_sect \<leftarrow> open_sections frame, con \<leftarrow> conseq open_sect, con = to_con]"

text \<open>
  With a cursor, the list is read from \<^verbatim>\<open>_opensel._opensect[to_con]\<close>, and \<^verbatim>\<open>operator[]\<close>
  inserts an empty sequence for a missing key. Without one, the list is built in a local
  variable.
\<close>

definition select_from_open ::
  "'c SimpleCallback \<Rightarrow> 'c Frame \<Rightarrow> 'c Section \<Rightarrow> nat \<Rightarrow> 'c \<Rightarrow> ('c, 'c Section option) outcome"
where
  "select_from_open cb frame fm_sect offset to_con =
     (let fit = get (openit (opensel cb)) to_con 0 in
        if 0 < fit then
          (let to_sects = (case opensect (opensel cb) to_con of None \<Rightarrow> [] | Some l \<Rightarrow> l);
               cb1 = cb\<lparr>opensel := (opensel cb)
                        \<lparr>opensect := (opensect (opensel cb))(to_con \<mapsto> to_sects)\<rparr>\<rparr>
           in check_self cb1 to_sects fm_sect to_con (unat fit))
        else
          (let to_sects = open_candidates frame to_con in
             if 0 = length to_sects then Inr (None, cb)
             else
               check_self
                 (cb\<lparr>opensel := (opensel cb)\<lparr>openit := (openit (opensel cb))(to_con \<mapsto> 0)\<rparr>\<rparr>)
                 to_sects fm_sect to_con 0))"

section \<open>The callback\<close>

definition select ::
  "'c SimpleCallback \<Rightarrow> 'c Frame \<Rightarrow> 'c Section \<Rightarrow> nat \<Rightarrow> 'c \<Rightarrow> ('c, 'c Section option) outcome"
where
  "select cb frame fm_sect offset to_con =
     (case select_from_open cb frame fm_sect offset to_con of
        Inl ub \<Rightarrow> Inl ub
      | Inr (open_sect, cb1) \<Rightarrow>
          (case open_sect of
             Some s \<Rightarrow> Inr (Some s, cb1)
           | None \<Rightarrow>
               if opensect (opensel cb1) to_con \<noteq> None then Inr (None, cb1)
               else select_from_lexis cb1 frame fm_sect offset to_con))"

definition push_frame :: "'c SimpleCallback \<Rightarrow> 'c Frame \<Rightarrow> 'c SimpleCallback" where
  "push_frame cb frm =
     cb\<lparr>opensel_stack := opensel cb # opensel_stack cb,
        opensel := \<lparr>opensect = Map.empty, openit = Map.empty\<rparr>\<rparr>"

text \<open>
  The source calls \<^verbatim>\<open>top()\<close> and \<^verbatim>\<open>pop()\<close> with no test for an empty stack. What
  happens on an empty stack is not defined by C++, and is a value of its own here.
\<close>

definition pop_frame ::
  "'c SimpleCallback \<Rightarrow> 'c Frame \<Rightarrow> undefined_behaviour + 'c SimpleCallback" where
  "pop_frame cb frm =
     (case opensel_stack cb of
        [] \<Rightarrow> Inl TopOfEmptyStack
      | saved # rest \<Rightarrow> Inr (cb\<lparr>opensel := saved, opensel_stack := rest\<rparr>))"

text \<open>The odometer is opaque to the policy, and the two hooks do not read it.\<close>

definition push_odometer :: "'c SimpleCallback \<Rightarrow> 'c SimpleCallback" where
  "push_odometer cb = cb\<lparr>lexlit_stack := lexlit cb # lexlit_stack cb, lexlit := Map.empty\<rparr>"

definition pop_odometer :: "'c SimpleCallback \<Rightarrow> undefined_behaviour + 'c SimpleCallback" where
  "pop_odometer cb =
     (case lexlit_stack cb of
        [] \<Rightarrow> Inl TopOfEmptyStack
      | saved # rest \<Rightarrow> Inr (cb\<lparr>lexlit := saved, lexlit_stack := rest\<rparr>))"

section \<open>Sequences of calls\<close>

text \<open>
  An unbroken run of \<open>select\<close> calls, each with its own arguments (frame, from-section,
  offset, to-connector): the answers in order, and the state after the last call.
\<close>

fun selects ::
  "'c SimpleCallback \<Rightarrow> ('c Frame \<times> 'c Section \<times> nat \<times> 'c) list \<Rightarrow>
     ('c, 'c Section option list) outcome"
where
  "selects cb [] = Inr ([], cb)"
| "selects cb ((frame, fm_sect, offset, to_con) # rest) =
     (case select cb frame fm_sect offset to_con of
        Inl ub \<Rightarrow> Inl ub
      | Inr (r, cb1) \<Rightarrow>
          (case selects cb1 rest of
             Inl ub \<Rightarrow> Inl ub
           | Inr (rs, cb2) \<Rightarrow> Inr (r # rs, cb2)))"

text \<open>The sections handed out in a run: the answers that are not the null handle.\<close>

fun handed_out :: "'a option list \<Rightarrow> 'a list" where
  "handed_out [] = []"
| "handed_out (None # rs) = handed_out rs"
| "handed_out (Some s # rs) = s # handed_out rs"

text \<open>What the driver may call on the policy, and a run of such calls.\<close>

datatype 'c request =
  Select "'c Frame" "'c Section" nat 'c
| PushFrame "'c Frame"
| PopFrame "'c Frame"
| PushOdometer
| PopOdometer

fun call :: "'c SimpleCallback \<Rightarrow> 'c request \<Rightarrow> undefined_behaviour + 'c SimpleCallback" where
  "call cb (Select frame fm_sect offset to_con) =
     (case select cb frame fm_sect offset to_con of
        Inl ub \<Rightarrow> Inl ub
      | Inr (r, cb') \<Rightarrow> Inr cb')"
| "call cb (PushFrame frm) = Inr (push_frame cb frm)"
| "call cb (PopFrame frm) = pop_frame cb frm"
| "call cb PushOdometer = Inr (push_odometer cb)"
| "call cb PopOdometer = pop_odometer cb"

fun calls :: "'c SimpleCallback \<Rightarrow> 'c request list \<Rightarrow> undefined_behaviour + 'c SimpleCallback" where
  "calls cb [] = Inr cb"
| "calls cb (x # xs) =
     (case call cb x of
        Inl ub \<Rightarrow> Inl ub
      | Inr cb' \<Rightarrow> calls cb' xs)"

text \<open>
  The nesting of the frame hooks in a run: the number of frames left pushed at the end
  of a run entered with \<open>d\<close> pushed, or \<open>None\<close> when some pop finds none of them left.
  Likewise for the odometer hooks.
\<close>

fun frame_depth :: "nat \<Rightarrow> 'c request list \<Rightarrow> nat option" where
  "frame_depth d [] = Some d"
| "frame_depth d (PushFrame frm # xs) = frame_depth (Suc d) xs"
| "frame_depth d (PopFrame frm # xs) =
     (case d of 0 \<Rightarrow> None | Suc d' \<Rightarrow> frame_depth d' xs)"
| "frame_depth d (x # xs) = frame_depth d xs"

fun odometer_depth :: "nat \<Rightarrow> 'c request list \<Rightarrow> nat option" where
  "odometer_depth d [] = Some d"
| "odometer_depth d (PushOdometer # xs) = odometer_depth (Suc d) xs"
| "odometer_depth d (PopOdometer # xs) =
     (case d of 0 \<Rightarrow> None | Suc d' \<Rightarrow> odometer_depth d' xs)"
| "odometer_depth d (x # xs) = odometer_depth d xs"

section \<open>States the policy can be in\<close>

text \<open>
  No statement of \<^verbatim>\<open>SimpleCallback.cc\<close> stores a candidate list in \<^verbatim>\<open>_opensect\<close>: the
  map is written by \<^verbatim>\<open>operator[]\<close> on a missing key (an empty sequence), by \<^verbatim>\<open>clear()\<close>
  and by the restore from the stack. So in every state the constructor and the calls
  lead to, each sequence stored there, on the stack too, is empty.
\<close>

definition nothing_cached :: "'c OpenSelections \<Rightarrow> bool" where
  "nothing_cached os = (\<forall>c. opensect os c = None \<or> opensect os c = Some [])"

definition attainable :: "'c SimpleCallback \<Rightarrow> bool" where
  "attainable cb = (nothing_cached (opensel cb) \<and> list_all nothing_cached (opensel_stack cb))"

text \<open>
  A section exists in a state when its point is not a unique point still to be handed
  out.
\<close>

definition exists_in :: "'c SimpleCallback \<Rightarrow> 'c Section \<Rightarrow> bool" where
  "exists_in cb sect =
     (case sect_point sect of
        Point n \<Rightarrow> True
      | Instance n k \<Rightarrow> k < point_cnt cb)"

text \<open>The unique copies of a list of sections, made in order from serial number \<open>k\<close> on.\<close>

fun unique_copies :: "nat \<Rightarrow> 'c Section list \<Rightarrow> 'c Section list" where
  "unique_copies k [] = []"
| "unique_copies k (sect # sects) =
     sect\<lparr>sect_point := Instance (point_name (sect_point sect)) k\<rparr> # unique_copies (Suc k) sects"


text \<open>
  What \<^verbatim>\<open>_opensel._opensect[to_con]\<close> reads: the sequence stored for the connector, the
  empty sequence when there is none.
\<close>

definition cached_candidates :: "'c SimpleCallback \<Rightarrow> 'c \<Rightarrow> 'c Section list" where
  "cached_candidates cb to_con =
     (case opensect (opensel cb) to_con of None \<Rightarrow> [] | Some l \<Rightarrow> l)"


text \<open>The connector a call of a run is for.\<close>

fun to_con_of :: "'c Frame \<times> 'c Section \<times> nat \<times> 'c \<Rightarrow> 'c" where
  "to_con_of (frame, fm_sect, offset, to_con) = to_con"

section \<open>Example data\<close>

text \<open>
  Two sections that expose the connector \<open>c1\<close> and one that does not, four
  dictionaries over them, and two frames.
\<close>

definition sect_A :: "string Section" where
  "sect_A = \<lparr>sect_point = Point ''A'', conseq = [''c1'']\<rparr>"

definition sect_B :: "string Section" where
  "sect_B = \<lparr>sect_point = Point ''B'', conseq = [''c1'']\<rparr>"

definition sect_F :: "string Section" where
  "sect_F = \<lparr>sect_point = Point ''F'', conseq = [''c2'']\<rparr>"

definition lexis_A :: "string \<Rightarrow> string Section list" where
  "lexis_A c = (if c = ''c1'' then [sect_A] else [])"

definition lexis_AB :: "string \<Rightarrow> string Section list" where
  "lexis_AB c = (if c = ''c1'' then [sect_A, sect_B] else [])"

definition lexis_BA :: "string \<Rightarrow> string Section list" where
  "lexis_BA c = (if c = ''c1'' then [sect_B, sect_A] else [])"

definition lexis_none :: "string \<Rightarrow> string Section list" where
  "lexis_none c = []"

definition no_open :: "string Frame" where
  "no_open = \<lparr>open_sections = []\<rparr>"

definition open_AB :: "string Frame" where
  "open_AB = \<lparr>open_sections = [sect_A, sect_B]\<rparr>"

section \<open>Notation for the proofs\<close>

text \<open>
  A call of \<open>select\<close> for a connector changes the state at that connector only: its
  entry in each of the three maps, and the count of unique points.
\<close>

definition set_openit :: "'c SimpleCallback \<Rightarrow> 'c \<Rightarrow> 32 word option \<Rightarrow> 'c SimpleCallback" where
  "set_openit cb c v = cb\<lparr>opensel := (opensel cb)\<lparr>openit := (openit (opensel cb))(c := v)\<rparr>\<rparr>"

definition touch ::
  "'c SimpleCallback \<Rightarrow> 'c \<Rightarrow> 'c Section list option \<Rightarrow> 32 word option \<Rightarrow> 32 word option \<Rightarrow> nat
     \<Rightarrow> 'c SimpleCallback" where
  "touch cb c os ov lv p =
     cb\<lparr>opensel := (opensel cb)\<lparr>opensect := (opensect (opensel cb))(c := os),
                                openit := (openit (opensel cb))(c := ov)\<rparr>,
        lexlit := (lexlit cb)(c := lv), point_cnt := p\<rparr>"

section \<open>What one call does\<close>

lemma set_openit_triv [simp]: "set_openit cb c (openit (opensel cb) c) = cb"
  by (simp add: set_openit_def)

lemma set_openit_twice [simp]: "set_openit (set_openit cb c v) c w = set_openit cb c w"
  by (simp add: set_openit_def)

lemma set_openit_fields [simp]:
  "openit (opensel (set_openit cb c v)) = (openit (opensel cb))(c := v)"
  "opensect (opensel (set_openit cb c v)) = opensect (opensel cb)"
  "opensel_stack (set_openit cb c v) = opensel_stack cb"
  "lexlit (set_openit cb c v) = lexlit cb"
  "lexlit_stack (set_openit cb c v) = lexlit_stack cb"
  "dict (set_openit cb c v) = dict cb"
  "point_cnt (set_openit cb c v) = point_cnt cb"
  "allow_self_connections (set_openit cb c v) = allow_self_connections cb"
  by (simp_all add: set_openit_def)

lemma check_self_loop_shape:
  "fit < length ts \<Longrightarrow>
   \<exists>r v. check_self_loop cb ts fm c fit = Inr (r, set_openit cb c v)
     \<and> (v = openit (opensel cb) c \<or> (\<exists>k. fit < k \<and> k \<le> length ts \<and> v = Some (of_nat k)))
     \<and> (case r of Some s \<Rightarrow> s \<noteq> fm \<and> s \<in> set ts
           | None \<Rightarrow> (\<forall>j. fit \<le> j \<and> j < length ts \<longrightarrow> ts ! j = fm) \<and> v = Some (of_nat (length ts)))"
proof (induction cb ts fm c fit rule: check_self_loop.induct)
  case (1 cb ts fm c fit)
  let ?cb' = "set_openit cb c (Some (of_nat (Suc fit)))"
  have at: "at ts fit = Inr (ts ! fit)" using "1.prems" by (simp add: at_def)
  show ?case
  proof (cases "ts ! fit \<noteq> fm")
    case True
    have "check_self_loop cb ts fm c fit = Inr (Some (ts ! fit), set_openit cb c (openit (opensel cb) c))"
      using True at by (subst check_self_loop.simps) simp
    then show ?thesis
      apply (intro exI [of _ "Some (ts ! fit)"] exI [of _ "openit (opensel cb) c"])
      using True "1.prems" by simp
  next
    case same: False
    show ?thesis
    proof (cases "length ts \<le> Suc fit")
      case True
      have len: "length ts = Suc fit" using True "1.prems" by simp
      have "check_self_loop cb ts fm c fit = Inr (None, ?cb')"
        using same True at by (subst check_self_loop.simps) (simp add: set_openit_def)
      moreover have "\<forall>j. fit \<le> j \<and> j < length ts \<longrightarrow> ts ! j = fm"
        using same len by (auto simp: less_Suc_eq_le dest: le_antisym)
      moreover have "\<exists>k. fit < k \<and> k \<le> length ts \<and> Some (of_nat (Suc fit) :: 32 word) = Some (of_nat k)"
        using len by (intro exI [of _ "Suc fit"]) simp
      moreover have "Some (of_nat (Suc fit) :: 32 word) = Some (of_nat (length ts))"
        using len by simp
      ultimately show ?thesis
        by (intro exI [of _ "None"] exI [of _ "Some (of_nat (Suc fit))"]) (simp only: option.case simp_thms)
    next
      case False
      have step: "check_self_loop cb ts fm c fit = check_self_loop ?cb' ts fm c (Suc fit)"
        using same False at by (subst check_self_loop.simps) (simp add: set_openit_def)
      have lt: "Suc fit < length ts" using False by simp
      have "\<exists>r v. check_self_loop ?cb' ts fm c (Suc fit) = Inr (r, set_openit ?cb' c v)
         \<and> (v = openit (opensel ?cb') c \<or> (\<exists>k. Suc fit < k \<and> k \<le> length ts \<and> v = Some (of_nat k)))
         \<and> (case r of Some s \<Rightarrow> s \<noteq> fm \<and> s \<in> set ts
           | None \<Rightarrow> (\<forall>j. Suc fit \<le> j \<and> j < length ts \<longrightarrow> ts ! j = fm) \<and> v = Some (of_nat (length ts)))"
        using "1.IH" [of "ts ! fit" "Suc fit" ?cb'] at same False lt by (simp add: set_openit_def)
      then obtain r v where
        r: "check_self_loop ?cb' ts fm c (Suc fit) = Inr (r, set_openit ?cb' c v)"
        and v: "v = openit (opensel ?cb') c \<or> (\<exists>k. Suc fit < k \<and> k \<le> length ts \<and> v = Some (of_nat k))"
        and c: "case r of Some s \<Rightarrow> s \<noteq> fm \<and> s \<in> set ts
           | None \<Rightarrow> (\<forall>j. Suc fit \<le> j \<and> j < length ts \<longrightarrow> ts ! j = fm) \<and> v = Some (of_nat (length ts))"
        by blast
      have v': "\<exists>k. fit < k \<and> k \<le> length ts \<and> v = Some (of_nat k)"
      proof (rule disjE [OF v])
        assume "v = openit (opensel ?cb') c"
        then have "v = Some (of_nat (Suc fit))" by simp
        then show ?thesis using lt by (intro exI [of _ "Suc fit"]) simp
      next
        assume "\<exists>k. Suc fit < k \<and> k \<le> length ts \<and> v = Some (of_nat k)"
        then obtain k where "Suc fit < k" "k \<le> length ts" "v = Some (of_nat k)" by blast
        then show ?thesis by (intro exI [of _ k]) simp
      qed
      have c': "case r of Some s \<Rightarrow> s \<noteq> fm \<and> s \<in> set ts
           | None \<Rightarrow> (\<forall>j. fit \<le> j \<and> j < length ts \<longrightarrow> ts ! j = fm) \<and> v = Some (of_nat (length ts))"
      proof (cases r)
        case None
        then have all: "\<forall>j. Suc fit \<le> j \<and> j < length ts \<longrightarrow> ts ! j = fm" and "v = Some (of_nat (length ts))"
          using c by simp_all
        moreover have "\<forall>j. fit \<le> j \<and> j < length ts \<longrightarrow> ts ! j = fm"
        proof (intro allI impI)
          fix j assume j: "fit \<le> j \<and> j < length ts"
          show "ts ! j = fm"
          proof (cases "j = fit")
            case True then show ?thesis using same by simp
          next
            case False then have "Suc fit \<le> j" using j by simp
            then show ?thesis using all j by blast
          qed
        qed
        ultimately show ?thesis using None by simp
      next
        case (Some s)
        then show ?thesis using c by simp
      qed
      show ?thesis
        apply (intro exI [of _ r] exI [of _ v])
        using step r v' c' by simp
    qed
  qed
qed


lemma get_simps [simp]:
  "get (m(k := None)) k d = d"
  "get (m(k \<mapsto> v)) k d = v"
  "k' \<noteq> k \<Longrightarrow> get (m(k' := x)) k d = get m k d"
  "get Map.empty k d = d"
  by (simp_all add: get_def)

lemma check_self_shape:
  "\<exists>r v. check_self cb ts fm c fit = Inr (r, set_openit cb c v)
     \<and> (if length ts \<le> fit then r = None \<and> v = openit (opensel cb) c
         else (v = Some (get (openit (opensel cb)) c 0 + 1)
                 \<or> (\<exists>k. fit < k \<and> k \<le> length ts \<and> v = Some (of_nat k)))
            \<and> (if allow_self_connections cb then r = Some (ts ! fit)
                else (case r of Some s \<Rightarrow> s \<noteq> fm \<and> s \<in> set ts
                      | None \<Rightarrow> (\<forall>j. fit \<le> j \<and> j < length ts \<longrightarrow> ts ! j = fm)
                           \<and> v = Some (of_nat (length ts)))))"
proof (cases "length ts \<le> fit")
  case True
  then have "check_self cb ts fm c fit = Inr (None, set_openit cb c (openit (opensel cb) c))"
    by (simp add: check_self_def)
  then show ?thesis using True
    by (intro exI [of _ None] exI [of _ "openit (opensel cb) c"]) simp
next
  case False
  let ?v1 = "Some (get (openit (opensel cb)) c 0 + 1)"
  let ?cb1 = "set_openit cb c ?v1"
  have cb1: "cb\<lparr>opensel := (opensel cb)\<lparr>openit := incr (openit (opensel cb)) c\<rparr>\<rparr> = ?cb1"
    by (simp add: set_openit_def incr_def)
  show ?thesis
  proof (cases "allow_self_connections cb")
    case True
    have "check_self cb ts fm c fit = Inr (Some (ts ! fit), ?cb1)"
      using False True by (simp add: check_self_def cb1 at_def Let_def)
    then show ?thesis using False True
      by (intro exI [of _ "Some (ts ! fit)"] exI [of _ ?v1]) simp
  next
    case no: False
    have eq: "check_self cb ts fm c fit = check_self_loop ?cb1 ts fm c fit"
      using False no by (simp add: check_self_def cb1 Let_def)
    have lt: "fit < length ts" using False by simp
    from check_self_loop_shape [OF lt, of ?cb1 fm c]
    obtain r v where
      r: "check_self_loop ?cb1 ts fm c fit = Inr (r, set_openit ?cb1 c v)"
      and v: "v = openit (opensel ?cb1) c \<or> (\<exists>k. fit < k \<and> k \<le> length ts \<and> v = Some (of_nat k))"
      and c: "case r of Some s \<Rightarrow> s \<noteq> fm \<and> s \<in> set ts
           | None \<Rightarrow> (\<forall>j. fit \<le> j \<and> j < length ts \<longrightarrow> ts ! j = fm) \<and> v = Some (of_nat (length ts))"
      by blast
    have v': "v = ?v1 \<or> (\<exists>k. fit < k \<and> k \<le> length ts \<and> v = Some (of_nat k))"
      using v by simp
    have "check_self cb ts fm c fit = Inr (r, set_openit cb c v)"
      using eq r by simp
    then show ?thesis using False no v' c
      by (intro exI [of _ r] exI [of _ v]) simp
  qed
qed


lemma touch_fields [simp]:
  "openit (opensel (touch cb c os ov lv p)) = (openit (opensel cb))(c := ov)"
  "opensect (opensel (touch cb c os ov lv p)) = (opensect (opensel cb))(c := os)"
  "lexlit (touch cb c os ov lv p) = (lexlit cb)(c := lv)"
  "point_cnt (touch cb c os ov lv p) = p"
  "opensel_stack (touch cb c os ov lv p) = opensel_stack cb"
  "lexlit_stack (touch cb c os ov lv p) = lexlit_stack cb"
  "dict (touch cb c os ov lv p) = dict cb"
  "allow_self_connections (touch cb c os ov lv p) = allow_self_connections cb"
  by (simp_all add: touch_def)

lemma touch_touch [simp]:
  "touch (touch cb c os ov lv p) c os' ov' lv' p' = touch cb c os' ov' lv' p'"
  by (simp add: touch_def)

lemma touch_triv [simp]:
  "touch cb c (opensect (opensel cb) c) (openit (opensel cb) c) (lexlit cb c) (point_cnt cb) = cb"
  by (simp add: touch_def)

lemma set_openit_touch:
  "set_openit cb c v = touch cb c (opensect (opensel cb) c) v (lexlit cb c) (point_cnt cb)"
  by (simp add: touch_def set_openit_def)

lemma select_from_lexis_empty:
  "get (lexlit cb) c 0 = 0 \<Longrightarrow> dict cb c = [] \<Longrightarrow> select_from_lexis cb fr fm off c = Inr (None, cb)"
  by (simp add: select_from_lexis_def)

lemma select_from_lexis_start:
  "get (lexlit cb) c 0 = 0 \<Longrightarrow> dict cb c \<noteq> [] \<Longrightarrow>
   select_from_lexis cb fr fm off c =
     Inr (Some ((dict cb c ! 0)\<lparr>sect_point := Instance (point_name (sect_point (dict cb c ! 0))) (point_cnt cb)\<rparr>),
          cb\<lparr>lexlit := (lexlit cb)(c \<mapsto> 1), point_cnt := Suc (point_cnt cb)\<rparr>)"
  by (simp add: select_from_lexis_def at_def create_unique_section_def Let_def)

lemma select_from_lexis_end:
  "get (lexlit cb) c 0 \<noteq> 0 \<Longrightarrow> length (dict cb c) \<le> unat (get (lexlit cb) c 0) \<Longrightarrow>
   select_from_lexis cb fr fm off c = Inr (None, cb\<lparr>lexlit := (lexlit cb)(c := None)\<rparr>)"
  by (simp add: select_from_lexis_def)

lemma select_from_lexis_next:
  "get (lexlit cb) c 0 \<noteq> 0 \<Longrightarrow> unat (get (lexlit cb) c 0) < length (dict cb c) \<Longrightarrow>
   select_from_lexis cb fr fm off c =
     Inr (Some ((dict cb c ! unat (get (lexlit cb) c 0))
             \<lparr>sect_point := Instance (point_name (sect_point (dict cb c ! unat (get (lexlit cb) c 0)))) (point_cnt cb)\<rparr>),
          cb\<lparr>lexlit := (lexlit cb)(c \<mapsto> get (lexlit cb) c 0 + 1), point_cnt := Suc (point_cnt cb)\<rparr>)"
  by (simp add: select_from_lexis_def at_def create_unique_section_def incr_def Let_def)

lemma select_from_lexis_shape:
  "\<exists>r lv p. select_from_lexis cb fr fm off c = Inr (r, cb\<lparr>lexlit := (lexlit cb)(c := lv), point_cnt := p\<rparr>)
     \<and> point_cnt cb \<le> p
     \<and> (case r of None \<Rightarrow> True | Some s \<Rightarrow> \<exists>n. sect_point s = Instance n (point_cnt cb))"
proof -
  consider (a) "get (lexlit cb) c 0 = 0" "dict cb c = []"
    | (b) "get (lexlit cb) c 0 = 0" "dict cb c \<noteq> []"
    | (c) "get (lexlit cb) c 0 \<noteq> 0" "length (dict cb c) \<le> unat (get (lexlit cb) c 0)"
    | (d) "get (lexlit cb) c 0 \<noteq> 0" "unat (get (lexlit cb) c 0) < length (dict cb c)"
    by linarith
  then show ?thesis
  proof cases
    case a
    have "cb = cb\<lparr>lexlit := (lexlit cb)(c := lexlit cb c), point_cnt := point_cnt cb\<rparr>" by simp
    then show ?thesis using select_from_lexis_empty [OF a]
      by (intro exI [of _ None] exI [of _ "lexlit cb c"] exI [of _ "point_cnt cb"]) simp
  next
    case b
    show ?thesis unfolding select_from_lexis_start [OF b]
      by (intro exI [of _ "Some ((dict cb c ! 0)\<lparr>sect_point := Instance (point_name (sect_point (dict cb c ! 0))) (point_cnt cb)\<rparr>)"]
            exI [of _ "Some 1"] exI [of _ "Suc (point_cnt cb)"]) simp
  next
    case c
    show ?thesis unfolding select_from_lexis_end [OF c]
      by (intro exI [of _ None] exI [of _ None] exI [of _ "point_cnt cb"]) simp
  next
    case d
    show ?thesis unfolding select_from_lexis_next [OF d]
      by (intro exI [of _ "Some ((dict cb c ! unat (get (lexlit cb) c 0))
             \<lparr>sect_point := Instance (point_name (sect_point (dict cb c ! unat (get (lexlit cb) c 0)))) (point_cnt cb)\<rparr>)"]
            exI [of _ "Some (get (lexlit cb) c 0 + 1)"] exI [of _ "Suc (point_cnt cb)"]) simp
  qed
qed



lemma select_from_open_none:
  "get (openit (opensel cb)) c 0 = 0 \<Longrightarrow> open_candidates fr c = [] \<Longrightarrow>
   select_from_open cb fr fm off c = Inr (None, cb)"
  by (simp add: select_from_open_def)

lemma select_from_open_start:
  "get (openit (opensel cb)) c 0 = 0 \<Longrightarrow> open_candidates fr c \<noteq> [] \<Longrightarrow>
   select_from_open cb fr fm off c =
     check_self (set_openit cb c (Some 0)) (open_candidates fr c) fm c 0"
  by (simp add: select_from_open_def set_openit_def Let_def)

lemma select_from_open_shape:
  "\<exists>r os ov. select_from_open cb fr fm off c = Inr (r, touch cb c os ov (lexlit cb c) (point_cnt cb))
     \<and> (os = opensect (opensel cb) c \<or> (opensect (opensel cb) c = None \<and> os = Some []))
     \<and> (\<not> allow_self_connections cb \<longrightarrow> r \<noteq> Some fm)"
proof (cases "get (openit (opensel cb)) c 0 = 0")
  case zero: True
  show ?thesis
  proof (cases "open_candidates fr c = []")
    case True
    have "select_from_open cb fr fm off c =
        Inr (None, touch cb c (opensect (opensel cb) c) (openit (opensel cb) c) (lexlit cb c) (point_cnt cb))"
      using select_from_open_none [OF zero True] by simp
    then show ?thesis
      by (intro exI [of _ None] exI [of _ "opensect (opensel cb) c"] exI [of _ "openit (opensel cb) c"]) simp
  next
    case False
    let ?cb0 = "set_openit cb c (Some 0)"
    from check_self_shape [of ?cb0 "open_candidates fr c" fm c 0]
    obtain r v where
      r: "check_self ?cb0 (open_candidates fr c) fm c 0 = Inr (r, set_openit ?cb0 c v)"
      and s: "if allow_self_connections ?cb0 then r = Some (open_candidates fr c ! 0)
              else (case r of Some s \<Rightarrow> s \<noteq> fm \<and> s \<in> set (open_candidates fr c)
                    | None \<Rightarrow> (\<forall>j. 0 \<le> j \<and> j < length (open_candidates fr c) \<longrightarrow> open_candidates fr c ! j = fm)
                         \<and> v = Some (of_nat (length (open_candidates fr c))))"
      using False by (auto split: if_splits)
    have "select_from_open cb fr fm off c =
        Inr (r, touch cb c (opensect (opensel cb) c) v (lexlit cb c) (point_cnt cb))"
      using select_from_open_start [OF zero False] r by (simp add: set_openit_touch)
    moreover have "\<not> allow_self_connections cb \<longrightarrow> r \<noteq> Some fm"
      using s by (auto split: option.splits)
    ultimately show ?thesis
      by (intro exI [of _ r] exI [of _ "opensect (opensel cb) c"] exI [of _ v]) simp
  qed
next
  case nz: False
  let ?ts = "case opensect (opensel cb) c of None \<Rightarrow> [] | Some l \<Rightarrow> l"
  let ?cb1 = "touch cb c (Some ?ts) (openit (opensel cb) c) (lexlit cb c) (point_cnt cb)"
  have pos: "0 < get (openit (opensel cb)) c 0" using nz by (simp add: word_gt_0)
  have eq: "select_from_open cb fr fm off c = check_self ?cb1 ?ts fm c (unat (get (openit (opensel cb)) c 0))"
    using pos by (simp add: select_from_open_def touch_def Let_def)
  from check_self_shape [of ?cb1 ?ts fm c "unat (get (openit (opensel cb)) c 0)"]
  obtain r v where
    r: "check_self ?cb1 ?ts fm c (unat (get (openit (opensel cb)) c 0)) = Inr (r, set_openit ?cb1 c v)"
    and s: "\<not> allow_self_connections cb \<longrightarrow> r \<noteq> Some fm"
    by (auto split: if_splits option.splits)
  have "select_from_open cb fr fm off c = Inr (r, touch cb c (Some ?ts) v (lexlit cb c) (point_cnt cb))"
    using eq r by (simp add: set_openit_touch)
  moreover have "Some ?ts = opensect (opensel cb) c \<or> (opensect (opensel cb) c = None \<and> Some ?ts = Some [])"
    by (cases "opensect (opensel cb) c") simp_all
  ultimately show ?thesis using s
    by (intro exI [of _ r] exI [of _ "Some ?ts"] exI [of _ v]) simp
qed




lemma select_lexis:
  "get (openit (opensel cb)) c 0 = 0 \<Longrightarrow> open_candidates fr c = [] \<Longrightarrow>
   opensect (opensel cb) c = None \<Longrightarrow> select cb fr fm off c = select_from_lexis cb fr fm off c"
  by (simp add: select_def select_from_open_none)

lemma select_shape:
  "\<exists>r os ov lv p. select cb fr fm off c = Inr (r, touch cb c os ov lv p)
     \<and> (os = opensect (opensel cb) c \<or> (opensect (opensel cb) c = None \<and> os = Some []))
     \<and> point_cnt cb \<le> p
     \<and> (\<not> allow_self_connections cb \<and> exists_in cb fm \<longrightarrow> r \<noteq> Some fm)"
proof -
  from select_from_open_shape [of cb fr fm off c]
  obtain r os ov where
    op: "select_from_open cb fr fm off c = Inr (r, touch cb c os ov (lexlit cb c) (point_cnt cb))"
    and os: "os = opensect (opensel cb) c \<or> (opensect (opensel cb) c = None \<and> os = Some [])"
    and self: "\<not> allow_self_connections cb \<longrightarrow> r \<noteq> Some fm"
    by blast
  let ?cb1 = "touch cb c os ov (lexlit cb c) (point_cnt cb)"
  show ?thesis
  proof (cases "r = None \<and> os = None")
    case False
    then have "select cb fr fm off c = Inr (r, ?cb1)"
      using op by (auto simp: select_def split: option.splits)
    then show ?thesis using os self
      by (intro exI [of _ r] exI [of _ os] exI [of _ ov] exI [of _ "lexlit cb c"]
            exI [of _ "point_cnt cb"]) simp
  next
    case True
    then have eq: "select cb fr fm off c = select_from_lexis ?cb1 fr fm off c"
      using op by (simp add: select_def)
    from select_from_lexis_shape [of ?cb1 fr fm off c]
    obtain r' lv p where
      lx: "select_from_lexis ?cb1 fr fm off c = Inr (r', ?cb1\<lparr>lexlit := (lexlit ?cb1)(c := lv), point_cnt := p\<rparr>)"
      and p: "point_cnt ?cb1 \<le> p"
      and fresh: "case r' of None \<Rightarrow> True | Some s \<Rightarrow> \<exists>n. sect_point s = Instance n (point_cnt ?cb1)"
      by blast
    have st: "?cb1\<lparr>lexlit := (lexlit ?cb1)(c := lv), point_cnt := p\<rparr> = touch cb c os ov lv p"
      by (simp add: touch_def)
    have "exists_in cb fm \<longrightarrow> r' \<noteq> Some fm"
      using fresh by (auto simp: exists_in_def split: option.splits point.splits)
    then show ?thesis using eq lx st os p
      by (intro exI [of _ r'] exI [of _ os] exI [of _ ov] exI [of _ lv] exI [of _ p]) simp
  qed
qed

lemma select_total: "\<exists>r cb'. select cb fr fm off c = Inr (r, cb')"
  using select_shape [of cb fr fm off c] by blast

lemma nothing_cached_touch:
  "nothing_cached (opensel cb) \<Longrightarrow>
   os = opensect (opensel cb) c \<or> (opensect (opensel cb) c = None \<and> os = Some []) \<Longrightarrow>
   nothing_cached (opensel (touch cb c os ov lv p))"
  by (auto simp: nothing_cached_def)

lemma select_keeps:
  assumes "select cb fr fm off c = Inr (r, cb')"
  shows "opensel_stack cb' = opensel_stack cb" and "lexlit_stack cb' = lexlit_stack cb"
    and "dict cb' = dict cb" and "allow_self_connections cb' = allow_self_connections cb"
    and "point_cnt cb \<le> point_cnt cb'"
    and "attainable cb \<Longrightarrow> attainable cb'"
    and "\<And>d. d \<noteq> c \<Longrightarrow> openit (opensel cb') d = openit (opensel cb) d"
    and "\<And>d. d \<noteq> c \<Longrightarrow> opensect (opensel cb') d = opensect (opensel cb) d"
    and "\<And>d. d \<noteq> c \<Longrightarrow> lexlit cb' d = lexlit cb d"
proof -
  from select_shape [of cb fr fm off c] assms
  obtain os ov lv p where
    cb': "cb' = touch cb c os ov lv p"
    and os: "os = opensect (opensel cb) c \<or> (opensect (opensel cb) c = None \<and> os = Some [])"
    and p: "point_cnt cb \<le> p"
    by auto
  show "opensel_stack cb' = opensel_stack cb" "lexlit_stack cb' = lexlit_stack cb"
    "dict cb' = dict cb" "allow_self_connections cb' = allow_self_connections cb"
    "point_cnt cb \<le> point_cnt cb'"
    using cb' p by simp_all
  show "attainable cb \<Longrightarrow> attainable cb'"
    using cb' nothing_cached_touch [OF _ os] by (simp add: attainable_def)
  show "\<And>d. d \<noteq> c \<Longrightarrow> openit (opensel cb') d = openit (opensel cb) d"
    "\<And>d. d \<noteq> c \<Longrightarrow> opensect (opensel cb') d = opensect (opensel cb) d"
    "\<And>d. d \<noteq> c \<Longrightarrow> lexlit cb' d = lexlit cb d"
    using cb' by simp_all
qed

section \<open>What a run of calls does\<close>

lemma selects_keeps:
  "\<exists>rs cb'. selects cb cs = Inr (rs, cb') \<and> length rs = length cs
     \<and> opensel_stack cb' = opensel_stack cb \<and> lexlit_stack cb' = lexlit_stack cb
     \<and> dict cb' = dict cb \<and> allow_self_connections cb' = allow_self_connections cb
     \<and> point_cnt cb \<le> point_cnt cb' \<and> (attainable cb \<longrightarrow> attainable cb')"
proof (induction cs arbitrary: cb)
  case Nil
  then show ?case by simp
next
  case (Cons x cs)
  obtain fr fm off c where x: "x = (fr, fm, off, c)" by (cases x) auto
  obtain r cb1 where s: "select cb fr fm off c = Inr (r, cb1)"
    using select_total [of cb fr fm off c] by blast
  note k = select_keeps [OF s]
  from Cons.IH [of cb1] obtain rs cb2 where
    rs: "selects cb1 cs = Inr (rs, cb2)" "length rs = length cs"
      "opensel_stack cb2 = opensel_stack cb1" "lexlit_stack cb2 = lexlit_stack cb1"
      "dict cb2 = dict cb1" "allow_self_connections cb2 = allow_self_connections cb1"
      "point_cnt cb1 \<le> point_cnt cb2" "attainable cb1 \<longrightarrow> attainable cb2"
    by blast
  have "selects cb (x # cs) = Inr (r # rs, cb2)" using x s rs(1) by simp
  then show ?case using rs k(1-6)
    by (intro exI [of _ "r # rs"] exI [of _ cb2]) auto
qed





lemma unat_succ_32: "unat w < n \<Longrightarrow> n < 2 ^ 32 \<Longrightarrow> unat (w + 1 :: 32 word) = Suc (unat w)"
  by (simp add: unat_word_ariths)





lemma to_con_of_map [simp]:
  "i < length args \<Longrightarrow> to_con_of (map (\<lambda>(fm, off). (fr, fm, off, c)) args ! i) = c"
  by (simp add: case_prod_beta)


lemma handed_out_replicate [simp]: "handed_out (replicate n None) = []"
  by (induction n) simp_all



lemma lexis_pass:
  assumes "get (openit (opensel cb)) c 0 = 0" and "open_candidates fr c = []"
    and "opensect (opensel cb) c = None"
    and "length (dict cb c) < 2 ^ 32"
    and "unat (get (lexlit cb) c 0) = k" and "k \<le> length (dict cb c)"
    and "length args = Suc (length (dict cb c) - k)"
  shows "\<exists>cb'. selects cb (map (\<lambda>(fm, off). (fr, fm, off, c)) args)
            = Inr (map Some (unique_copies (point_cnt cb) (drop k (dict cb c))) @ [None], cb')
     \<and> get (lexlit cb') c 0 = 0 \<and> point_cnt cb' = point_cnt cb + (length (dict cb c) - k)
     \<and> opensel cb' = opensel cb \<and> dict cb' = dict cb"
  using assms
proof (induction args arbitrary: cb k)
  case Nil
  then show ?case by simp
next
  case (Cons a args)
  obtain fm off where a: "a = (fm, off)" by (cases a) auto
  let ?n = "length (dict cb c)"
  let ?w = "get (lexlit cb) c 0"
  have sel: "select cb fr fm off c = select_from_lexis cb fr fm off c"
    using Cons.prems(1-3) by (simp add: select_lexis)
  show ?case
  proof (cases "k = ?n")
    case True
    then have args: "args = []" using Cons.prems(7) by simp
    show ?thesis
    proof (cases "?w = 0")
      case zero: True
      then have "dict cb c = []" using Cons.prems(5) True by simp
      then show ?thesis using sel a args zero True
        by (simp add: select_from_lexis_empty)
    next
      case False
      have "?n \<le> unat ?w" using Cons.prems(5) True by simp
      from select_from_lexis_end [OF False this, of fr fm off]
      show ?thesis using sel a args True by simp
    qed
  next
    case False
    then have lt: "k < ?n" using Cons.prems(6) by simp
    let ?x = "dict cb c ! k"
    let ?u = "?x\<lparr>sect_point := Instance (point_name (sect_point ?x)) (point_cnt cb)\<rparr>"
    have "\<exists>w'. select_from_lexis cb fr fm off c
        = Inr (Some ?u, cb\<lparr>lexlit := (lexlit cb)(c \<mapsto> w'), point_cnt := Suc (point_cnt cb)\<rparr>)
        \<and> unat w' = Suc k"
    proof (cases "?w = 0")
      case True
      then have k0: "k = 0" using Cons.prems(5) by simp
      then have "dict cb c \<noteq> []" using lt by auto
      from select_from_lexis_start [OF True this, of fr fm off] k0
      show ?thesis by (intro exI [of _ 1]) simp
    next
      case False
      have "unat ?w < ?n" using Cons.prems(5) lt by simp
      from select_from_lexis_next [OF False this, of fr fm off]
        unat_succ_32 [OF this Cons.prems(4)] Cons.prems(5)
      show ?thesis by (intro exI [of _ "?w + 1"]) simp
    qed
    then obtain w' where
      step: "select_from_lexis cb fr fm off c
        = Inr (Some ?u, cb\<lparr>lexlit := (lexlit cb)(c \<mapsto> w'), point_cnt := Suc (point_cnt cb)\<rparr>)"
      and w': "unat w' = Suc k"
      by blast
    let ?cb1 = "cb\<lparr>lexlit := (lexlit cb)(c \<mapsto> w'), point_cnt := Suc (point_cnt cb)\<rparr>"
    have p: "get (openit (opensel ?cb1)) c 0 = 0" "open_candidates fr c = []"
      "opensect (opensel ?cb1) c = None" "length (dict ?cb1 c) < 2 ^ 32"
      "unat (get (lexlit ?cb1) c 0) = Suc k" "Suc k \<le> length (dict ?cb1 c)"
      "length args = Suc (length (dict ?cb1 c) - Suc k)"
      using Cons.prems lt w' by simp_all
    from Cons.IH [OF p] obtain cb' where
      rest: "selects ?cb1 (map (\<lambda>(fm, off). (fr, fm, off, c)) args)
            = Inr (map Some (unique_copies (Suc (point_cnt cb)) (drop (Suc k) (dict cb c))) @ [None], cb')"
      and fin: "get (lexlit cb') c 0 = 0" "point_cnt cb' = Suc (point_cnt cb) + (?n - Suc k)"
        "opensel cb' = opensel cb" "dict cb' = dict cb"
      by auto
    have d: "drop k (dict cb c) = ?x # drop (Suc k) (dict cb c)"
      using lt by (simp add: Cons_nth_drop_Suc)
    have "selects cb (map (\<lambda>(fm, off). (fr, fm, off, c)) (a # args))
        = Inr (map Some (unique_copies (point_cnt cb) (drop k (dict cb c))) @ [None], cb')"
      using a sel step rest by (simp add: d)
    moreover have "point_cnt cb' = point_cnt cb + (?n - k)" using fin(2) lt by simp
    ultimately show ?thesis using fin by (intro exI [of _ cb']) simp
  qed
qed

lemma lexis_nothing_left:
  assumes "dict cb c = [] \<or> (get (lexlit cb) c 0 \<noteq> 0 \<and> length (dict cb c) \<le> unat (get (lexlit cb) c 0))"
  shows "\<exists>cb'. select_from_lexis cb fr fm off c = Inr (None, cb')"
proof (cases "get (lexlit cb) c 0 = 0")
  case True
  then have "dict cb c = []" using assms by auto
  from select_from_lexis_empty [OF True this] show ?thesis by blast
next
  case False
  then have "length (dict cb c) \<le> unat (get (lexlit cb) c 0)" using assms by auto
  from select_from_lexis_end [OF False this] show ?thesis by blast
qed

lemma attainable_init: "attainable (SimpleCallback_init d)"
  by (simp add: attainable_def nothing_cached_def SimpleCallback_init_def)

lemma attainable_call:
  assumes "attainable cb" and "call cb x = Inr cb'"
  shows "attainable cb'"
proof (cases x)
  case (Select fr fm off c)
  then obtain r where "select cb fr fm off c = Inr (r, cb')"
    using assms(2) by (auto split: sum.splits)
  from select_keeps(6) [OF this assms(1)] show ?thesis .
next
  case (PushFrame frm)
  then show ?thesis using assms
    by (auto simp: attainable_def nothing_cached_def push_frame_def)
next
  case (PopFrame frm)
  then show ?thesis using assms
    by (auto simp: attainable_def pop_frame_def split: list.splits)
next
  case PushOdometer
  then show ?thesis using assms by (auto simp: attainable_def push_odometer_def)
next
  case PopOdometer
  then show ?thesis using assms
    by (auto simp: attainable_def pop_odometer_def split: list.splits)
qed

lemma attainable_calls: "attainable cb \<Longrightarrow> calls cb cs = Inr cb' \<Longrightarrow> attainable cb'"
proof (induction cs arbitrary: cb)
  case Nil
  then show ?case by simp
next
  case (Cons x cs)
  then obtain cb1 where "call cb x = Inr cb1" "calls cb1 cs = Inr cb'"
    by (auto split: sum.splits)
  then show ?case using Cons.IH attainable_call Cons.prems(1) by blast
qed

section \<open>Nested pushes and pops\<close>

lemma calls_nesting:
  "odometer_depth d cs = Some d' \<Longrightarrow> frame_depth e cs = Some e' \<Longrightarrow>
   d \<le> length (lexlit_stack cb) \<Longrightarrow> e \<le> length (opensel_stack cb) \<Longrightarrow>
   \<exists>cb'. calls cb cs = Inr cb'
     \<and> d' \<le> length (lexlit_stack cb') \<and> drop d' (lexlit_stack cb') = drop d (lexlit_stack cb)
     \<and> e' \<le> length (opensel_stack cb') \<and> drop e' (opensel_stack cb') = drop e (opensel_stack cb)"
proof (induction cs arbitrary: cb d e)
  case Nil
  then show ?case by simp
next
  case (Cons x cs)
  show ?case
  proof (cases x)
    case (Select fr fm off c)
    obtain r cb1 where s: "select cb fr fm off c = Inr (r, cb1)"
      using select_total [of cb fr fm off c] by blast
    note k = select_keeps(1,2) [OF s]
    from Cons.IH [of d e cb1] Cons.prems Select k s show ?thesis by simp
  next
    case (PushFrame frm)
    from Cons.IH [of d "Suc e" "push_frame cb frm"] Cons.prems PushFrame
    show ?thesis by (simp add: push_frame_def)
  next
    case (PopFrame frm)
    then obtain e0 where e: "e = Suc e0" using Cons.prems(2) by (cases e) simp_all
    then obtain saved rest where st: "opensel_stack cb = saved # rest"
      using Cons.prems(4) by (cases "opensel_stack cb") simp_all
    from Cons.IH [of d e0 "cb\<lparr>opensel := saved, opensel_stack := rest\<rparr>"] Cons.prems PopFrame e st
    show ?thesis by (simp add: pop_frame_def)
  next
    case PushOdometer
    from Cons.IH [of "Suc d" e "push_odometer cb"] Cons.prems PushOdometer
    show ?thesis by (simp add: push_odometer_def)
  next
    case PopOdometer
    then obtain d0 where d: "d = Suc d0" using Cons.prems(1) by (cases d) simp_all
    then obtain saved rest where st: "lexlit_stack cb = saved # rest"
      using Cons.prems(3) by (cases "lexlit_stack cb") simp_all
    from Cons.IH [of d0 e "cb\<lparr>lexlit := saved, lexlit_stack := rest\<rparr>"] Cons.prems PopOdometer d st
    show ?thesis by (simp add: pop_odometer_def)
  qed
qed

section \<open>Cursors, caches and unmatched pops\<close>


lemma check_self_loop_first:
  "fit < length ts \<Longrightarrow> check_self_loop cb ts fm c fit = Inr (Some s, cb') \<Longrightarrow>
   \<exists>others. filter (\<lambda>x. x \<noteq> fm) (drop fit ts) = s # others"
proof (induction cb ts fm c fit rule: check_self_loop.induct)
  case (1 cb ts fm c fit)
  have at: "at ts fit = Inr (ts ! fit)" using "1.prems"(1) by (simp add: at_def)
  have d: "drop fit ts = ts ! fit # drop (Suc fit) ts"
    using "1.prems"(1) by (simp add: Cons_nth_drop_Suc)
  show ?case
  proof (cases "ts ! fit \<noteq> fm")
    case True
    have "check_self_loop cb ts fm c fit = Inr (Some (ts ! fit), cb)"
      using True at by (subst check_self_loop.simps) simp
    then have "s = ts ! fit" using "1.prems"(2) by simp
    then show ?thesis using True d by simp
  next
    case same: False
    let ?cb' = "cb\<lparr>opensel := (opensel cb)\<lparr>openit := (openit (opensel cb))(c \<mapsto> of_nat (fit + 1))\<rparr>\<rparr>"
    show ?thesis
    proof (cases "length ts \<le> Suc fit")
      case True
      have "check_self_loop cb ts fm c fit = Inr (None, ?cb')"
        using same True at by (subst check_self_loop.simps) simp
      then show ?thesis using "1.prems"(2) by simp
    next
      case False
      have step: "check_self_loop cb ts fm c fit = check_self_loop ?cb' ts fm c (fit + 1)"
        using same False at by (subst check_self_loop.simps) simp
      have lt: "fit + 1 < length ts" using False by simp
      have "\<exists>others. filter (\<lambda>x. x \<noteq> fm) (drop (fit + 1) ts) = s # others"
        using "1.IH" [of "ts ! fit" "fit + 1" ?cb'] at same False lt "1.prems"(2) step by simp
      then show ?thesis using same d by simp
    qed
  qed
qed

lemma check_self_first:
  assumes "\<not> allow_self_connections cb" and "check_self cb ts fm c fit = Inr (Some s, cb')"
  shows "\<exists>others. filter (\<lambda>x. x \<noteq> fm) (drop fit ts) = s # others"
proof (cases "length ts \<le> fit")
  case True
  then show ?thesis using assms(2) by (simp add: check_self_def)
next
  case False
  then have lt: "fit < length ts" by simp
  let ?cb1 = "cb\<lparr>opensel := (opensel cb)\<lparr>openit := incr (openit (opensel cb)) c\<rparr>\<rparr>"
  have "check_self_loop ?cb1 ts fm c fit = Inr (Some s, cb')"
    using assms False by (simp add: check_self_def Let_def)
  from check_self_loop_first [OF lt this] show ?thesis .
qed



lemma set_drop_nth: "x \<in> set (drop n xs) \<Longrightarrow> \<exists>j. n \<le> j \<and> j < length xs \<and> xs ! j = x"
proof -
  assume "x \<in> set (drop n xs)"
  then obtain i where "i < length (drop n xs)" "drop n xs ! i = x"
    by (auto simp: in_set_conv_nth)
  then show ?thesis by (intro exI [of _ "n + i"]) auto
qed

lemma select_cache_exhausted:
  assumes nz: "get (openit (opensel cb)) c 0 \<noteq> 0"
    and ex: "length (cached_candidates cb c) \<le> unat (get (openit (opensel cb)) c 0)
       \<or> \<not> allow_self_connections cb
          \<and> (\<forall>j. unat (get (openit (opensel cb)) c 0) \<le> j \<and> j < length (cached_candidates cb c)
                \<longrightarrow> cached_candidates cb c ! j = fm)"
  shows "\<exists>cb'. select cb fr fm off c = Inr (None, cb')"
proof -
  let ?ts = "cached_candidates cb c"
  let ?fit = "unat (get (openit (opensel cb)) c 0)"
  let ?cb1 = "touch cb c (Some ?ts) (openit (opensel cb) c) (lexlit cb c) (point_cnt cb)"
  have pos: "0 < get (openit (opensel cb)) c 0" using nz by (simp add: word_gt_0)
  have eq: "select_from_open cb fr fm off c = check_self ?cb1 ?ts fm c ?fit"
    using pos by (simp add: select_from_open_def touch_def cached_candidates_def Let_def)
  from check_self_shape [of ?cb1 ?ts fm c ?fit]
  obtain r v where r: "check_self ?cb1 ?ts fm c ?fit = Inr (r, set_openit ?cb1 c v)"
    and short: "length ?ts \<le> ?fit \<longrightarrow> r = None"
    by (auto split: if_splits)
  have "r = None"
  proof (cases "length ?ts \<le> ?fit")
    case True
    then show ?thesis using short by simp
  next
    case False
    then have na: "\<not> allow_self_connections ?cb1"
      and all: "\<forall>j. ?fit \<le> j \<and> j < length ?ts \<longrightarrow> ?ts ! j = fm"
      using ex by auto
    show ?thesis
    proof (cases r)
      case None
      then show ?thesis .
    next
      case (Some s)
      from check_self_first [OF na, of ?ts fm c ?fit s] r Some
      obtain others where f: "filter (\<lambda>x. x \<noteq> fm) (drop ?fit ?ts) = s # others" by auto
      then have "s \<in> set (filter (\<lambda>x. x \<noteq> fm) (drop ?fit ?ts))" by simp
      then have "s \<in> set (drop ?fit ?ts)" "s \<noteq> fm" by auto
      then show ?thesis using all set_drop_nth [of s ?fit ?ts] by auto
    qed
  qed
  then have "select_from_open cb fr fm off c = Inr (None, set_openit ?cb1 c v)"
    using eq r by simp
  then show ?thesis by (simp add: select_def)
qed

lemma select_nothing_to_offer:
  assumes zero: "get (openit (opensel cb)) c 0 = 0"
    and op: "open_candidates fr c = []
        \<or> \<not> allow_self_connections cb \<and> (\<forall>s\<in>set (open_candidates fr c). s = fm)"
    and lex: "dict cb c = []
        \<or> get (lexlit cb) c 0 \<noteq> 0 \<and> length (dict cb c) \<le> unat (get (lexlit cb) c 0)"
  shows "\<exists>cb'. select cb fr fm off c = Inr (None, cb')"
proof -
  from select_from_open_shape [of cb fr fm off c]
  obtain r1 os ov where
    o: "select_from_open cb fr fm off c
          = Inr (r1, touch cb c os ov (lexlit cb c) (point_cnt cb))"
    by blast
  let ?cb1 = "touch cb c os ov (lexlit cb c) (point_cnt cb)"
  have r1: "r1 = None"
  proof (cases "open_candidates fr c = []")
    case True
    from select_from_open_none [OF zero True, of fm off] o show ?thesis by simp
  next
    case False
    then have self: "\<not> allow_self_connections cb" "\<forall>s\<in>set (open_candidates fr c). s = fm"
      using op by auto
    let ?cb0 = "set_openit cb c (Some 0)"
    from check_self_shape [of ?cb0 "open_candidates fr c" fm c 0] False self
    obtain r' v where
      "check_self ?cb0 (open_candidates fr c) fm c 0 = Inr (r', set_openit ?cb0 c v)"
      "case r' of Some s \<Rightarrow> s \<noteq> fm \<and> s \<in> set (open_candidates fr c) | None \<Rightarrow> True"
      by (auto split: option.splits)
    moreover from this self(2) have "r' = None" by (cases r') auto
    ultimately show ?thesis
      using select_from_open_start [OF zero False, of fm off] o by simp
  qed
  from lexis_nothing_left [of ?cb1 c fr fm off] lex
  obtain cb2 where "select_from_lexis ?cb1 fr fm off c = Inr (None, cb2)"
    by auto
  then show ?thesis using o r1 by (auto simp: select_def split: if_splits)
qed




section \<open>Evaluation of concrete runs\<close>

lemmas run_defs =
  select_def select_from_open_def select_from_lexis_def create_unique_section_def
  check_self_def open_candidates_def at_def get_def incr_def SimpleCallback_init_def Let_def

section \<open>The claims\<close>




text \<open>
  C2 (the code departs from it). With the open sections \<open>A\<close> and \<open>B\<close> both exposing
  \<open>c1\<close>, the first call hands out \<open>A\<close> and leaves \<^verbatim>\<open>_opensect\<close> empty: the list built is
  not stored. The second call reads the cache with \<^verbatim>\<open>operator[]\<close>, finds the empty
  sequence it has just inserted, and answers with the null handle; \<open>B\<close> is never handed
  out.
\<close>

theorem open_candidates_not_cached:
  "select (SimpleCallback_init lexis_none) open_AB sect_F 0 ''c1''
     = Inr (Some sect_A,
            (SimpleCallback_init lexis_none)
              \<lparr>opensel := \<lparr>opensect = Map.empty, openit = [''c1'' \<mapsto> 1]\<rparr>\<rparr>)
   \<and> selects (SimpleCallback_init lexis_none)
       [(open_AB, sect_F, 0, ''c1''), (open_AB, sect_F, 0, ''c1'')]
     = Inr ([Some sect_A, None],
            (SimpleCallback_init lexis_none)
              \<lparr>opensel := \<lparr>opensect = [''c1'' \<mapsto> []], openit = [''c1'' \<mapsto> 1]\<rparr>\<rparr>)"
  by (simp add: run_defs check_self_loop.simps lexis_none_def open_AB_def sect_A_def sect_B_def sect_F_def)

text \<open>
  C3 (as amended). With the two-entry lexis \<open>[A, B]\<close> for \<open>c1\<close>, self connections not
  allowed, no open sections and from-section \<open>A\<close>: the first call hands out a unique
  copy of \<open>A\<close>, the second a unique copy of \<open>B\<close>, the third the null handle.
\<close>

theorem two_entry_lexis:
  "selects (SimpleCallback_init (\<lambda>c. if c = c1 then [A, B] else []))
     [(\<lparr>open_sections = []\<rparr>, A, 0, c1), (\<lparr>open_sections = []\<rparr>, A, 0, c1),
      (\<lparr>open_sections = []\<rparr>, A, 0, c1)]
   = Inr ([Some (A\<lparr>sect_point := Instance (point_name (sect_point A)) 0\<rparr>),
           Some (B\<lparr>sect_point := Instance (point_name (sect_point B)) 1\<rparr>),
           None],
          (SimpleCallback_init (\<lambda>c. if c = c1 then [A, B] else []))\<lparr>point_cnt := 2\<rparr>)"
  by (simp add: run_defs)

text \<open>
  C3 as stated fails: the first answer is a copy of \<open>A\<close>, not \<open>B\<close>, and the second
  answer is not the null handle.
\<close>

theorem two_entry_lexis_counterexample:
  "selects (SimpleCallback_init lexis_AB)
     [(no_open, sect_A, 0, ''c1''), (no_open, sect_A, 0, ''c1'')]
   = Inr ([Some \<lparr>sect_point = Instance ''A'' 0, conseq = [''c1'']\<rparr>,
           Some \<lparr>sect_point = Instance ''B'' 1, conseq = [''c1'']\<rparr>],
          (SimpleCallback_init lexis_AB)\<lparr>lexlit := [''c1'' \<mapsto> 2], point_cnt := 2\<rparr>)"
  by (simp add: run_defs lexis_AB_def no_open_def sect_A_def sect_B_def)

text \<open>
  C4. With self connections not allowed, a section \<open>select\<close> hands out is never equal
  to the from-section (which exists when \<open>select\<close> is called); with self connections
  allowed, a first open candidate equal to the from-section is handed out.
\<close>

theorem self_connection_filter:
  "(\<not> allow_self_connections cb \<and> exists_in cb fm_sect
      \<and> select cb frame fm_sect offset to_con = Inr (Some s, cb') \<longrightarrow> s \<noteq> fm_sect)
   \<and> (allow_self_connections cb \<and> get (openit (opensel cb)) to_con 0 = 0
      \<and> open_candidates frame to_con = fm_sect # rest
      \<longrightarrow> (\<exists>cb'. select cb frame fm_sect offset to_con = Inr (Some fm_sect, cb')))"
proof (intro conjI impI)
  assume a: "\<not> allow_self_connections cb \<and> exists_in cb fm_sect
      \<and> select cb frame fm_sect offset to_con = Inr (Some s, cb')"
  from select_shape [of cb frame fm_sect offset to_con] a
  show "s \<noteq> fm_sect" by auto
next
  assume a: "allow_self_connections cb \<and> get (openit (opensel cb)) to_con 0 = 0
      \<and> open_candidates frame to_con = fm_sect # rest"
  let ?cb0 = "set_openit cb to_con (Some 0)"
  have ne: "open_candidates frame to_con \<noteq> []" using a by simp
  from check_self_shape [of ?cb0 "open_candidates frame to_con" fm_sect to_con 0] a
  obtain v where "check_self ?cb0 (open_candidates frame to_con) fm_sect to_con 0
      = Inr (Some fm_sect, set_openit ?cb0 to_con v)"
    by auto
  then have "select_from_open cb frame fm_sect offset to_con
      = Inr (Some fm_sect, set_openit ?cb0 to_con v)"
    using select_from_open_start [of cb to_con frame fm_sect offset] a ne by simp
  then show "\<exists>cb'. select cb frame fm_sect offset to_con = Inr (Some fm_sect, cb')"
    by (simp add: select_def)
qed

text \<open>
  At concrete inputs: a call that draws a copy of \<open>A\<close> from the lexis with from-section
  \<open>A\<close>, and a call with self connections allowed, where the open section \<open>A\<close> is
  handed out to the from-section \<open>A\<close>.
\<close>

theorem self_connection_filter_witness:
  "\<not> allow_self_connections (SimpleCallback_init lexis_AB)
   \<and> exists_in (SimpleCallback_init lexis_AB) sect_A
   \<and> select (SimpleCallback_init lexis_AB) no_open sect_A 0 ''c1''
       = Inr (Some \<lparr>sect_point = Instance ''A'' 0, conseq = [''c1'']\<rparr>,
              (SimpleCallback_init lexis_AB)\<lparr>lexlit := [''c1'' \<mapsto> 1], point_cnt := 1\<rparr>)
   \<and> \<lparr>sect_point = Instance ''A'' 0, conseq = [''c1'']\<rparr> \<noteq> sect_A
   \<and> allow_self_connections ((SimpleCallback_init lexis_AB)\<lparr>allow_self_connections := True\<rparr>)
   \<and> get (openit (opensel ((SimpleCallback_init lexis_AB)\<lparr>allow_self_connections := True\<rparr>))) ''c1'' 0 = 0
   \<and> open_candidates open_AB ''c1'' = [sect_A, sect_B]
   \<and> (\<exists>cb'. select ((SimpleCallback_init lexis_AB)\<lparr>allow_self_connections := True\<rparr>)
               open_AB sect_A 0 ''c1'' = Inr (Some sect_A, cb'))"
proof -
  let ?cb = "SimpleCallback_init lexis_AB"
  let ?cbT = "?cb\<lparr>allow_self_connections := True\<rparr>"
  let ?u = "\<lparr>sect_point = Instance ''A'' 0, conseq = [''c1'']\<rparr> :: string Section"
  have h1: "\<not> allow_self_connections ?cb" "exists_in ?cb sect_A"
    by (simp_all add: SimpleCallback_init_def exists_in_def sect_A_def)
  have h2: "select ?cb no_open sect_A 0 ''c1''
       = Inr (Some ?u, ?cb\<lparr>lexlit := [''c1'' \<mapsto> 1], point_cnt := 1\<rparr>)"
    by (simp add: run_defs lexis_AB_def no_open_def sect_A_def)
  have h3: "allow_self_connections ?cbT" "get (openit (opensel ?cbT)) ''c1'' 0 = 0"
    "open_candidates open_AB ''c1'' = sect_A # [sect_B]"
    by (simp_all add: SimpleCallback_init_def open_candidates_def open_AB_def sect_A_def sect_B_def)
  have "?u \<noteq> sect_A"
    using self_connection_filter [of ?cb sect_A no_open 0 "''c1''" ?u
        "?cb\<lparr>lexlit := [''c1'' \<mapsto> 1], point_cnt := 1\<rparr>"] h1 h2
    by blast
  moreover have "\<exists>cb'. select ?cbT open_AB sect_A 0 ''c1'' = Inr (Some sect_A, cb')"
    using self_connection_filter [of ?cbT sect_A open_AB 0 "''c1''" _ _ "[sect_B]"] h3
    by blast
  ultimately show ?thesis using h1 h2 h3 by simp
qed

text \<open>
  C5 (as amended). With no open candidates and no cursor yet for the connector, a run of
  \<open>select\<close> calls hands out a unique copy of every section the lexis has for the
  connector, once each and in the order of the lexis, whether or not a section equals
  the from-section, and then the null handle. The lexis has fewer than \<open>2 ^ 32\<close> sections
  for the connector.
\<close>

theorem lexis_enumerated_in_order:
  assumes "open_candidates frame to_con = []"
    and "opensect (opensel cb) to_con = None"
    and "get (openit (opensel cb)) to_con 0 = 0"
    and "get (lexlit cb) to_con 0 = 0"
    and "length (dict cb to_con) < 2 ^ 32"
    and "length args = Suc (length (dict cb to_con))"
  shows "\<exists>cb'. selects cb (map (\<lambda>(fm_sect, offset). (frame, fm_sect, offset, to_con)) args)
            = Inr (map Some (unique_copies (point_cnt cb) (dict cb to_con)) @ [None], cb')
     \<and> get (lexlit cb') to_con 0 = 0"
  using lexis_pass [OF assms(3,1,2,5), of 0 args] assms(4,6) by auto

text \<open>
  At a concrete input: three calls on the two-entry lexis with from-section \<open>A\<close>.
\<close>

theorem lexis_enumerated_in_order_witness:
  "open_candidates no_open ''c1'' = []
   \<and> opensect (opensel (SimpleCallback_init lexis_AB)) ''c1'' = None
   \<and> get (openit (opensel (SimpleCallback_init lexis_AB))) ''c1'' 0 = 0
   \<and> get (lexlit (SimpleCallback_init lexis_AB)) ''c1'' 0 = 0
   \<and> length (dict (SimpleCallback_init lexis_AB) ''c1'') < 2 ^ 32
   \<and> (\<exists>cb'. selects (SimpleCallback_init lexis_AB)
          [(no_open, sect_A, 0, ''c1''), (no_open, sect_A, 0, ''c1''), (no_open, sect_A, 0, ''c1'')]
        = Inr ([Some \<lparr>sect_point = Instance ''A'' 0, conseq = [''c1'']\<rparr>,
                Some \<lparr>sect_point = Instance ''B'' 1, conseq = [''c1'']\<rparr>,
                None], cb')
      \<and> get (lexlit cb') ''c1'' 0 = 0)"
proof -
  let ?cb = "SimpleCallback_init lexis_AB"
  have h: "open_candidates no_open ''c1'' = []" "opensect (opensel ?cb) ''c1'' = None"
    "get (openit (opensel ?cb)) ''c1'' 0 = 0" "get (lexlit ?cb) ''c1'' 0 = 0"
    "length (dict ?cb ''c1'') < 2 ^ 32"
    "length [(sect_A, 0::nat), (sect_A, 0), (sect_A, 0)] = Suc (length (dict ?cb ''c1''))"
    by (simp_all add: open_candidates_def no_open_def SimpleCallback_init_def lexis_AB_def)
  from lexis_enumerated_in_order [OF h]
  have "\<exists>cb'. selects ?cb
          [(no_open, sect_A, 0, ''c1''), (no_open, sect_A, 0, ''c1''), (no_open, sect_A, 0, ''c1'')]
        = Inr ([Some \<lparr>sect_point = Instance ''A'' 0, conseq = [''c1'']\<rparr>,
                Some \<lparr>sect_point = Instance ''B'' 1, conseq = [''c1'']\<rparr>,
                None], cb')
      \<and> get (lexlit cb') ''c1'' 0 = 0"
    by (simp del: selects.simps add: SimpleCallback_init_def lexis_AB_def sect_A_def sect_B_def)
  with h(1-5) show ?thesis by (intro conjI)
qed

text \<open>
  C5 as stated fails: with the lexis \<open>[B, A]\<close> and from-section \<open>A\<close>, the second
  answer is a copy of \<open>A\<close>, the entry equal to the from-section.
\<close>

theorem lexis_self_entry_counterexample:
  "selects (SimpleCallback_init lexis_BA)
     [(no_open, sect_A, 0, ''c1''), (no_open, sect_A, 0, ''c1''), (no_open, sect_A, 0, ''c1'')]
   = Inr ([Some \<lparr>sect_point = Instance ''B'' 0, conseq = [''c1'']\<rparr>,
           Some \<lparr>sect_point = Instance ''A'' 1, conseq = [''c1'']\<rparr>,
           None],
          (SimpleCallback_init lexis_BA)\<lparr>point_cnt := 2\<rparr>)"
  by (simp add: run_defs lexis_BA_def no_open_def sect_A_def sect_B_def)

text \<open>
  C6 (as amended). After \<open>push_frame\<close>, any run of \<open>select\<close> calls and \<open>pop_frame\<close>,
  the open-section state (the cursors, the cache and the stack of both) is what it was
  before \<open>push_frame\<close>. The cursors into the lexis are not restored: \<open>pop_frame\<close>
  leaves them as the calls of \<open>select\<close> left them.
\<close>

theorem pop_frame_restores_open_state:
  "\<exists>rs cb1 cb2. selects (push_frame cb frm) cs = Inr (rs, cb1) \<and> pop_frame cb1 frm' = Inr cb2
     \<and> opensel cb2 = opensel cb \<and> opensel_stack cb2 = opensel_stack cb
     \<and> lexlit cb2 = lexlit cb1 \<and> lexlit_stack cb2 = lexlit_stack cb
     \<and> point_cnt cb2 = point_cnt cb1"
proof -
  from selects_keeps [of "push_frame cb frm" cs] obtain rs cb1 where
    r: "selects (push_frame cb frm) cs = Inr (rs, cb1)"
    and k: "opensel_stack cb1 = opensel_stack (push_frame cb frm)"
      "lexlit_stack cb1 = lexlit_stack (push_frame cb frm)"
    by blast
  have st: "opensel_stack cb1 = opensel cb # opensel_stack cb" "lexlit_stack cb1 = lexlit_stack cb"
    using k by (simp_all add: push_frame_def)
  let ?cb2 = "cb1\<lparr>opensel := opensel cb, opensel_stack := opensel_stack cb\<rparr>"
  have "pop_frame cb1 frm' = Inr ?cb2" using st by (simp add: pop_frame_def)
  then show ?thesis using r st
    by (intro exI [of _ rs] exI [of _ cb1] exI [of _ ?cb2]) simp
qed

text \<open>
  C6 as stated fails: a call of \<open>select\<close> between \<open>push_frame\<close> and \<open>pop_frame\<close> that
  draws on the lexis leaves a cursor there that was not set before.
\<close>

theorem pop_frame_keeps_lexis_cursor_counterexample:
  "calls (SimpleCallback_init lexis_A)
     [PushFrame no_open, Select no_open sect_B 0 ''c1'', PopFrame no_open]
     = Inr ((SimpleCallback_init lexis_A)\<lparr>lexlit := [''c1'' \<mapsto> 1], point_cnt := 1\<rparr>)
   \<and> lexlit (SimpleCallback_init lexis_A) ''c1'' = None"
  by (simp add: run_defs push_frame_def pop_frame_def lexis_A_def no_open_def sect_A_def sect_B_def)

text \<open>
  C7. \<open>push_odometer\<close> saves the cursors into the lexis on their stack and clears
  them, and touches nothing of the open-section state; \<open>push_frame\<close> saves the
  open-section cursors and cache on their stack and clears them, and touches nothing of
  the lexis cursors. After any run of calls in which the pushes and pops of the same
  kind are matched (and those of the other kind do not pop more than the run has
  pushed), the matching pop restores exactly what its push saved, and leaves the state
  of the other scope alone.
\<close>

theorem push_pop_scopes:
  "lexlit (push_odometer cb) = Map.empty
   \<and> lexlit_stack (push_odometer cb) = lexlit cb # lexlit_stack cb
   \<and> opensel (push_odometer cb) = opensel cb
   \<and> opensel_stack (push_odometer cb) = opensel_stack cb
   \<and> opensel (push_frame cb frm) = \<lparr>opensect = Map.empty, openit = Map.empty\<rparr>
   \<and> opensel_stack (push_frame cb frm) = opensel cb # opensel_stack cb
   \<and> lexlit (push_frame cb frm) = lexlit cb
   \<and> lexlit_stack (push_frame cb frm) = lexlit_stack cb
   \<and> (odometer_depth 0 cs = Some 0 \<and> frame_depth 0 cs = Some e \<longrightarrow>
        (\<exists>cb1 cb2. calls (push_odometer cb) cs = Inr cb1 \<and> pop_odometer cb1 = Inr cb2
           \<and> lexlit cb2 = lexlit cb \<and> lexlit_stack cb2 = lexlit_stack cb
           \<and> opensel cb2 = opensel cb1 \<and> opensel_stack cb2 = opensel_stack cb1))
   \<and> (frame_depth 0 cs = Some 0 \<and> odometer_depth 0 cs = Some d \<longrightarrow>
        (\<exists>cb1 cb2. calls (push_frame cb frm) cs = Inr cb1 \<and> pop_frame cb1 frm' = Inr cb2
           \<and> opensel cb2 = opensel cb \<and> opensel_stack cb2 = opensel_stack cb
           \<and> lexlit cb2 = lexlit cb1 \<and> lexlit_stack cb2 = lexlit_stack cb1))"
proof -
  have odo: "\<exists>cb1 cb2. calls (push_odometer cb) cs = Inr cb1 \<and> pop_odometer cb1 = Inr cb2
           \<and> lexlit cb2 = lexlit cb \<and> lexlit_stack cb2 = lexlit_stack cb
           \<and> opensel cb2 = opensel cb1 \<and> opensel_stack cb2 = opensel_stack cb1"
    if "odometer_depth 0 cs = Some 0" "frame_depth 0 cs = Some e"
  proof -
    from calls_nesting [OF that, of "push_odometer cb"] obtain cb1 where
      r: "calls (push_odometer cb) cs = Inr cb1"
      and st: "lexlit_stack cb1 = lexlit cb # lexlit_stack cb"
      by (auto simp: push_odometer_def)
    let ?cb2 = "cb1\<lparr>lexlit := lexlit cb, lexlit_stack := lexlit_stack cb\<rparr>"
    have "pop_odometer cb1 = Inr ?cb2" using st by (simp add: pop_odometer_def)
    then show ?thesis using r by (intro exI [of _ cb1] exI [of _ ?cb2]) simp
  qed
  have frm: "\<exists>cb1 cb2. calls (push_frame cb frm) cs = Inr cb1 \<and> pop_frame cb1 frm' = Inr cb2
           \<and> opensel cb2 = opensel cb \<and> opensel_stack cb2 = opensel_stack cb
           \<and> lexlit cb2 = lexlit cb1 \<and> lexlit_stack cb2 = lexlit_stack cb1"
    if "frame_depth 0 cs = Some 0" "odometer_depth 0 cs = Some d"
  proof -
    from calls_nesting [OF that(2,1), of "push_frame cb frm"] obtain cb1 where
      r: "calls (push_frame cb frm) cs = Inr cb1"
      and st: "opensel_stack cb1 = opensel cb # opensel_stack cb"
      by (auto simp: push_frame_def)
    let ?cb2 = "cb1\<lparr>opensel := opensel cb, opensel_stack := opensel_stack cb\<rparr>"
    have "pop_frame cb1 frm' = Inr ?cb2" using st by (simp add: pop_frame_def)
    then show ?thesis using r by (intro exI [of _ cb1] exI [of _ ?cb2]) simp
  qed
  show ?thesis using odo frm by (simp add: push_odometer_def push_frame_def)
qed

text \<open>
  At a concrete input: a run with a matched pair of each kind and a call of \<open>select\<close>
  inside each, between a push and its pop.
\<close>

theorem push_pop_scopes_witness:
  "odometer_depth 0
     [PushFrame no_open, Select no_open sect_A 0 ''c1'', PopFrame no_open,
      PushOdometer, Select no_open sect_A 0 ''c1'', PopOdometer] = Some 0
   \<and> frame_depth 0
     [PushFrame no_open, Select no_open sect_A 0 ''c1'', PopFrame no_open,
      PushOdometer, Select no_open sect_A 0 ''c1'', PopOdometer] = Some 0
   \<and> (\<exists>cb1 cb2.
        calls (push_odometer (SimpleCallback_init lexis_AB))
          [PushFrame no_open, Select no_open sect_A 0 ''c1'', PopFrame no_open,
           PushOdometer, Select no_open sect_A 0 ''c1'', PopOdometer] = Inr cb1
        \<and> pop_odometer cb1 = Inr cb2
        \<and> lexlit cb2 = lexlit (SimpleCallback_init lexis_AB)
        \<and> lexlit_stack cb2 = lexlit_stack (SimpleCallback_init lexis_AB))
   \<and> (\<exists>cb1 cb2.
        calls (push_frame (SimpleCallback_init lexis_AB) no_open)
          [PushFrame no_open, Select no_open sect_A 0 ''c1'', PopFrame no_open,
           PushOdometer, Select no_open sect_A 0 ''c1'', PopOdometer] = Inr cb1
        \<and> pop_frame cb1 no_open = Inr cb2
        \<and> opensel cb2 = opensel (SimpleCallback_init lexis_AB)
        \<and> opensel_stack cb2 = opensel_stack (SimpleCallback_init lexis_AB))"
proof -
  let ?cs = "[PushFrame no_open, Select no_open sect_A 0 ''c1'', PopFrame no_open,
      PushOdometer, Select no_open sect_A 0 ''c1'', PopOdometer]"
  have d: "odometer_depth 0 ?cs = Some 0" "frame_depth 0 ?cs = Some 0"
    by simp_all
  note t = push_pop_scopes [of "SimpleCallback_init lexis_AB" no_open ?cs 0 0 no_open]
  from t d have "\<exists>cb1 cb2.
        calls (push_odometer (SimpleCallback_init lexis_AB)) ?cs = Inr cb1
        \<and> pop_odometer cb1 = Inr cb2
        \<and> lexlit cb2 = lexlit (SimpleCallback_init lexis_AB)
        \<and> lexlit_stack cb2 = lexlit_stack (SimpleCallback_init lexis_AB)"
    by blast
  moreover from t d have "\<exists>cb1 cb2.
        calls (push_frame (SimpleCallback_init lexis_AB) no_open) ?cs = Inr cb1
        \<and> pop_frame cb1 no_open = Inr cb2
        \<and> opensel cb2 = opensel (SimpleCallback_init lexis_AB)
        \<and> opensel_stack cb2 = opensel_stack (SimpleCallback_init lexis_AB)"
    by blast
  ultimately show ?thesis using d by (intro conjI)
qed

text \<open>
  C8 (as amended). For sections and connectors that are not the null handle, \<open>select\<close>
  reads no vector past its end, and returns a section or the null handle. It returns the
  null handle when the connector has no open cursor, no open section offers a candidate
  other than the from-section (none matches, or self connections are not allowed and
  every match equals the from-section) and the lexis has nothing left for the connector
  (no sections, or the cursor at their end); and when the connector has an open cursor
  and the cached candidate list has nothing left from the cursor on (the cursor at its
  end, or self connections not allowed and only the from-section left). A section of the
  lexis equal to the from-section is not filtered: with no matching open section and no
  cursor for the connector, a unique copy of the first section of the lexis is handed
  out, whatever the from-section.
\<close>

theorem select_never_aborts:
  "\<exists>r cb'. select cb frame fm_sect offset to_con = Inr (r, cb')
     \<and> (get (openit (opensel cb)) to_con 0 = 0
          \<and> (open_candidates frame to_con = []
              \<or> \<not> allow_self_connections cb
                  \<and> (\<forall>s\<in>set (open_candidates frame to_con). s = fm_sect))
          \<and> (dict cb to_con = []
              \<or> get (lexlit cb) to_con 0 \<noteq> 0
                  \<and> length (dict cb to_con) \<le> unat (get (lexlit cb) to_con 0))
        \<longrightarrow> r = None)
     \<and> (get (openit (opensel cb)) to_con 0 \<noteq> 0
          \<and> (length (cached_candidates cb to_con) \<le> unat (get (openit (opensel cb)) to_con 0)
              \<or> \<not> allow_self_connections cb
                  \<and> (\<forall>j. unat (get (openit (opensel cb)) to_con 0) \<le> j
                          \<and> j < length (cached_candidates cb to_con)
                        \<longrightarrow> cached_candidates cb to_con ! j = fm_sect))
        \<longrightarrow> r = None)
     \<and> (get (openit (opensel cb)) to_con 0 = 0 \<and> open_candidates frame to_con = []
          \<and> opensect (opensel cb) to_con = None \<and> get (lexlit cb) to_con 0 = 0
          \<and> dict cb to_con = sect # others
        \<longrightarrow> r = Some (sect\<lparr>sect_point := Instance (point_name (sect_point sect)) (point_cnt cb)\<rparr>))"
proof -
  obtain r cb' where s: "select cb frame fm_sect offset to_con = Inr (r, cb')"
    using select_total [of cb frame fm_sect offset to_con] by blast
  have a: "r = None"
    if "get (openit (opensel cb)) to_con 0 = 0
          \<and> (open_candidates frame to_con = []
              \<or> \<not> allow_self_connections cb
                  \<and> (\<forall>s\<in>set (open_candidates frame to_con). s = fm_sect))
          \<and> (dict cb to_con = []
              \<or> get (lexlit cb) to_con 0 \<noteq> 0
                  \<and> length (dict cb to_con) \<le> unat (get (lexlit cb) to_con 0))"
    using select_nothing_to_offer [of cb to_con frame fm_sect offset] that s by auto
  have b: "r = None"
    if "get (openit (opensel cb)) to_con 0 \<noteq> 0
          \<and> (length (cached_candidates cb to_con) \<le> unat (get (openit (opensel cb)) to_con 0)
              \<or> \<not> allow_self_connections cb
                  \<and> (\<forall>j. unat (get (openit (opensel cb)) to_con 0) \<le> j
                          \<and> j < length (cached_candidates cb to_con)
                        \<longrightarrow> cached_candidates cb to_con ! j = fm_sect))"
    using select_cache_exhausted [of cb to_con fm_sect frame offset] that s by auto
  have c: "r = Some (sect\<lparr>sect_point := Instance (point_name (sect_point sect)) (point_cnt cb)\<rparr>)"
    if "get (openit (opensel cb)) to_con 0 = 0 \<and> open_candidates frame to_con = []
          \<and> opensect (opensel cb) to_con = None \<and> get (lexlit cb) to_con 0 = 0
          \<and> dict cb to_con = sect # others"
  proof -
    have "select cb frame fm_sect offset to_con = select_from_lexis cb frame fm_sect offset to_con"
      using that by (simp add: select_lexis)
    moreover have "dict cb to_con \<noteq> []" using that by simp
    ultimately show ?thesis
      using select_from_lexis_start [of cb to_con frame fm_sect offset] that s by simp
  qed
  show ?thesis using s a b c by (intro exI [of _ r] exI [of _ cb']) blast
qed

text \<open>
  At concrete inputs: the only open candidate is the from-section and the lexis is
  empty; the open cursor is set and the cache holds nothing; the only section of the
  lexis equals the from-section.
\<close>

theorem select_never_aborts_witness:
  "get (openit (opensel (SimpleCallback_init lexis_none))) ''c1'' 0 = 0
   \<and> \<not> allow_self_connections (SimpleCallback_init lexis_none)
   \<and> open_candidates \<lparr>open_sections = [sect_A]\<rparr> ''c1'' = [sect_A]
   \<and> dict (SimpleCallback_init lexis_none) ''c1'' = []
   \<and> (\<exists>cb'. select (SimpleCallback_init lexis_none) \<lparr>open_sections = [sect_A]\<rparr> sect_A 0 ''c1''
              = Inr (None, cb'))
   \<and> get (openit (opensel ((SimpleCallback_init lexis_AB)
         \<lparr>opensel := \<lparr>opensect = Map.empty, openit = [''c1'' \<mapsto> 1]\<rparr>\<rparr>)))
         ''c1'' 0 = 1
   \<and> cached_candidates ((SimpleCallback_init lexis_AB)
         \<lparr>opensel := \<lparr>opensect = Map.empty, openit = [''c1'' \<mapsto> 1]\<rparr>\<rparr>)
         ''c1'' = []
   \<and> (\<exists>cb'. select ((SimpleCallback_init lexis_AB)
         \<lparr>opensel := \<lparr>opensect = Map.empty, openit = [''c1'' \<mapsto> 1]\<rparr>\<rparr>)
         open_AB sect_F 0 ''c1'' = Inr (None, cb'))
   \<and> dict (SimpleCallback_init lexis_A) ''c1'' = [sect_A]
   \<and> (\<exists>cb'. select (SimpleCallback_init lexis_A) no_open sect_A 0 ''c1''
              = Inr (Some (sect_A\<lparr>sect_point := Instance ''A'' 0\<rparr>), cb'))"
proof -
  let ?cb = "SimpleCallback_init lexis_none"
  let ?fr = "\<lparr>open_sections = [sect_A]\<rparr>"
  let ?cbc = "(SimpleCallback_init lexis_AB)
         \<lparr>opensel := \<lparr>opensect = Map.empty, openit = [''c1'' \<mapsto> 1]\<rparr>\<rparr>"
  let ?cba = "SimpleCallback_init lexis_A"
  have h: "get (openit (opensel ?cb)) ''c1'' 0 = 0" "\<not> allow_self_connections ?cb"
    "open_candidates ?fr ''c1'' = [sect_A]" "dict ?cb ''c1'' = []"
    by (simp_all add: SimpleCallback_init_def open_candidates_def sect_A_def lexis_none_def)
  from select_never_aborts [of ?cb ?fr sect_A 0 "''c1''"] h
  have one: "\<exists>cb'. select ?cb ?fr sect_A 0 ''c1'' = Inr (None, cb')"
    by auto
  have g: "get (openit (opensel ?cbc)) ''c1'' 0 = 1" "cached_candidates ?cbc ''c1'' = []"
    by (simp_all add: cached_candidates_def)
  from select_never_aborts [of ?cbc open_AB sect_F 0 "''c1''"] g
  have two: "\<exists>cb'. select ?cbc open_AB sect_F 0 ''c1'' = Inr (None, cb')"
    by auto
  have k: "get (openit (opensel ?cba)) ''c1'' 0 = 0" "open_candidates no_open ''c1'' = []"
    "opensect (opensel ?cba) ''c1'' = None" "get (lexlit ?cba) ''c1'' 0 = 0"
    "dict ?cba ''c1'' = sect_A # []" "point_cnt ?cba = 0" "point_name (sect_point sect_A) = ''A''"
    by (simp_all add: SimpleCallback_init_def open_candidates_def no_open_def lexis_A_def sect_A_def)
  from select_never_aborts [of ?cba no_open sect_A 0 "''c1''" sect_A "[]"] k
  have three: "\<exists>cb'. select ?cba no_open sect_A 0 ''c1''
              = Inr (Some (sect_A\<lparr>sect_point := Instance ''A'' 0\<rparr>), cb')"
    by auto
  from h one g two k(5) three show ?thesis by (intro conjI) simp_all
qed

text \<open>
  C8 as stated fails: with no matching open section and a lexis whose only section for
  the connector equals the from-section, \<open>select\<close> hands out a copy of that section,
  not the null handle.
\<close>

theorem self_only_lexis_counterexample:
  "select (SimpleCallback_init lexis_A) no_open sect_A 0 ''c1''
     = Inr (Some \<lparr>sect_point = Instance ''A'' 0, conseq = [''c1'']\<rparr>,
            (SimpleCallback_init lexis_A)\<lparr>lexlit := [''c1'' \<mapsto> 1], point_cnt := 1\<rparr>)"
  by (simp add: run_defs lexis_A_def no_open_def sect_A_def)






end
